theory Spec2Isabelle
  imports Complex_Main
begin

section \<open>The speedometer sampling engine\<close>

text \<open>
  The source is Python 2 (\<^verbatim>\<open>long\<close>, \<^verbatim>\<open>1L\<close>): \<^verbatim>\<open>/\<close> on two integers is floor
  division, which is \<open>div\<close> on \<open>int\<close>. Byte counters are unbounded integers (\<open>int\<close>).
  Timestamps are the floats of \<^verbatim>\<open>time.time()\<close>; they are modelled as exact rationals,
  and float arithmetic as exact rational arithmetic. The clock is an input: each
  \<open>update\<close> takes the timestamp it reads.
\<close>

datatype error = AssertionError | IndexError | ZeroDivisionError

type_synonym reading = "rat \<times> int"

record speedometer =
  log :: "reading list"
  start :: "reading option"
  maxlog :: int

text \<open>\<^verbatim>\<open>Speedometer(maxlog)\<close>: an empty log, no start reading.\<close>

definition init :: "int \<Rightarrow> speedometer" where
  "init m = \<lparr>log = [], start = None, maxlog = m\<rparr>"

text \<open>
  Python's \<^verbatim>\<open>xs[k:]\<close>: a negative \<open>k\<close> counts from the end and is clamped at the
  front of the list; \<open>k = 0\<close> keeps the whole list.
\<close>

definition slice_from :: "int \<Rightarrow> 'a list \<Rightarrow> 'a list" where
  "slice_from k xs =
     (if k < 0 then drop (nat (max 0 (int (length xs) + k))) xs else drop (nat k) xs)"

text \<open>
  Subscripting a list, \<^verbatim>\<open>xs[i]\<close>: positions \<open>- length xs \<dots> - 1\<close> are read from
  the back, anything outside \<open>- length xs \<dots> length xs - 1\<close> is an \<^verbatim>\<open>IndexError\<close>.
\<close>

definition index :: "'a list \<Rightarrow> int \<Rightarrow> error + 'a" where
  "index xs i =
     (if i < - int (length xs) \<or> int (length xs) \<le> i then Inl IndexError
      else if i < 0 then Inr (xs ! nat (int (length xs) + i))
      else Inr (xs ! nat i))"

text \<open>
  \<^verbatim>\<open>update(bytes)\<close> with the clock value \<open>t\<close> it reads. A reading is a non-empty
  tuple, which is always true in Python, so \<^verbatim>\<open>not self.start\<close> holds exactly when
  \<open>start\<close> is \<^verbatim>\<open>None\<close>.
\<close>

definition update :: "speedometer \<Rightarrow> rat \<Rightarrow> int \<Rightarrow> speedometer" where
  "update s t bytes =
     (let reading = (t, bytes);
          s1 = (if start s = None then s\<lparr>start := Some reading\<rparr> else s);
          s2 = s1\<lparr>log := log s1 @ [reading]\<rparr>
      in s2\<lparr>log := slice_from (- (maxlog s2 + 1)) (log s2)\<rparr>)"

text \<open>Recording a list of (timestamp, counter) readings, oldest first.\<close>

fun updates :: "speedometer \<Rightarrow> reading list \<Rightarrow> speedometer" where
  "updates s [] = s"
| "updates s (r # rs) = updates (update s (fst r) (snd r)) rs"

text \<open>
  \<^verbatim>\<open>delta(readings, skip)\<close>: the four assertions first, then the three ways of
  returning \<^verbatim>\<open>None\<close>, then the pair (time passed, byte increase).
\<close>

definition delta :: "speedometer \<Rightarrow> int \<Rightarrow> int \<Rightarrow> error + (rat \<times> int) option" where
  "delta s readings skip =
     (if \<not> readings \<ge> 0 then Inl AssertionError
      else if \<not> readings \<le> maxlog s then Inl AssertionError
      else if \<not> skip \<ge> 0 then Inl AssertionError
      else if skip > 0 \<and> \<not> readings > 0 then Inl AssertionError
      else if skip > int (length (log s)) - 1 then Inr None
      else case index (log s) (-1 - skip) of
        Inl e \<Rightarrow> Inl e
      | Inr current \<Rightarrow>
          (case (if readings = 0 then Inr (start s)
                 else if int (length (log s)) > readings + skip
                   then map_sum id Some (index (log s) (- (readings + skip + 1)))
                 else Inr None) of
             Inl e \<Rightarrow> Inl e
           | Inr None \<Rightarrow> Inr None
           | Inr (Some target) \<Rightarrow>
               if target = current then Inr None
               else Inr (Some (fst current - fst target, snd current - snd target))))"

text \<open>Python's \<^verbatim>\<open>long(x)\<close> on a float: truncation towards zero.\<close>

definition long :: "rat \<Rightarrow> int" where
  "long x = (if x \<ge> 0 then \<lfloor>x\<rfloor> else \<lceil>x\<rceil>)"

text \<open>
  \<^verbatim>\<open>delta_to_speed(delta)\<close>. Either component may be an integer or a float in the
  source (\<open>speed\<close> passes an integer byte increase, \<open>curve\<close> a float one), so both are
  rationals here. The final \<^verbatim>\<open>/\<close> divides two longs: floor division.
\<close>

definition delta_to_speed :: "rat \<times> rat \<Rightarrow> int" where
  "delta_to_speed d =
     (let time_passed = fst d; byte_increase = snd d
      in if time_passed \<le> 0 then 0
         else if long (time_passed * 1000) = 0 then 0
         else long (byte_increase * 1000) div long (time_passed * 1000))"

text \<open>\<^verbatim>\<open>speed\<close>: a delta is a non-empty tuple, so \<^verbatim>\<open>if d\<close> is \<^verbatim>\<open>d is not None\<close>.\<close>

definition speed :: "speedometer \<Rightarrow> int \<Rightarrow> int \<Rightarrow> error + int option" where
  "speed s readings skip =
     (case delta s readings skip of
        Inl e \<Rightarrow> Inl e
      | Inr None \<Rightarrow> Inr None
      | Inr (Some d) \<Rightarrow> Inr (Some (delta_to_speed (fst d, of_int (snd d)))))"

text \<open>
  The loop of \<^verbatim>\<open>curve\<close> over the weights still to use, with the index \<open>i\<close>, the
  total weight and the weighted speed so far. Dividing by a zero \<open>t\<close> raises.
\<close>

fun curve_loop :: "speedometer \<Rightarrow> int list \<Rightarrow> int \<Rightarrow> int \<Rightarrow> rat \<Rightarrow> error + (int \<times> rat)" where
  "curve_loop spd [] i wtot ws = Inr (wtot, ws)"
| "curve_loop spd (v # vs) i wtot ws =
     (case delta spd 1 i of
        Inl e \<Rightarrow> Inl e
      | Inr None \<Rightarrow> Inr (wtot, ws)
      | Inr (Some d) \<Rightarrow>
          (let t = fst d; b = snd d
           in if t = 0 then Inl ZeroDivisionError
              else curve_loop spd vs (i + 1) (wtot + v) (ws + of_int b * of_int v / t)))"

definition val :: "int list" where
  "val = [6, 5, 4, 3, 2, 1]"

definition curve :: "speedometer \<Rightarrow> error + int" where
  "curve spd =
     (case curve_loop spd val 0 0 0 of
        Inl e \<Rightarrow> Inl e
      | Inr (wtot, ws) \<Rightarrow> Inr (delta_to_speed (of_int wtot, ws)))"

section \<open>The renderer\<close>

text \<open>Decimal digits of a natural number, most significant first (\<^verbatim>\<open>str(n)\<close>).\<close>

fun digits :: "nat \<Rightarrow> string" where
  "digits n =
     (if n < 10 then [''0123456789'' ! n]
      else digits (n div 10) @ [''0123456789'' ! (n mod 10)])"

declare digits.simps [simp del]

text \<open>A field of minimum width \<open>w\<close>, right-justified with spaces.\<close>

definition rjust :: "nat \<Rightarrow> string \<Rightarrow> string" where
  "rjust w s = replicate (w - length s) CHR '' '' @ s"

text \<open>\<^verbatim>\<open>"%4d " % n\<close>, with the space that follows the field.\<close>

definition fmt_4d :: "int \<Rightarrow> string" where
  "fmt_4d n = rjust 4 (if n < 0 then CHR ''-'' # digits (nat (- n)) else digits (nat n)) @ '' ''"

text \<open>Rounding to the nearest integer, a tie going to the even neighbour.\<close>

definition round_half_even :: "rat \<Rightarrow> int" where
  "round_half_even r =
     (let f = \<lfloor>r\<rfloor>; d = r - of_int f
      in if d < 1 / 2 then f else if 1 / 2 < d then f + 1 else if even f then f else f + 1)"

text \<open>
  \<^verbatim>\<open>"%4.Pf " % x\<close> for precision \<open>P = p > 0\<close>, with the space that follows the field:
  \<open>x\<close> correctly rounded to \<open>p\<close> decimals, in a field of minimum width 4.
\<close>

definition fmt_4f :: "nat \<Rightarrow> rat \<Rightarrow> string" where
  "fmt_4f p x =
     (let n = nat (round_half_even (\<bar>x\<bar> * 10 ^ p));
          frac = digits (n mod 10 ^ p)
      in rjust 4 ((if x < 0 then ''-'' else '''') @ digits (n div 10 ^ p) @ ''.''
                  @ replicate (p - length frac) CHR ''0'' @ frac) @ '' '')"

definition units :: "string list" where
  "units = [''B/s'', ''KiB/s'', ''MiB/s'', ''GiB/s'', ''TiB/s'']"

text \<open>
  The loop of \<^verbatim>\<open>readable_speed\<close> over the units still to try. \<^verbatim>\<open>speed/step\<close>
  divides two integers (floor division); \<^verbatim>\<open>float(speed)/step\<close> is the exact quotient
  (the step is a power of two, so the float quotient is exact for rates below \<open>2 ^ 53\<close>).
\<close>

fun readable_loop :: "int \<Rightarrow> string list \<Rightarrow> int \<Rightarrow> string" where
  "readable_loop sp [] step = fmt_4d (sp div (step div 1024)) @ last units"
| "readable_loop sp (u # us) step =
     (if step > 1 \<and> length (fmt_4f 2 (of_int sp / of_int step)) \<le> 5
        then fmt_4f 2 (of_int sp / of_int step) @ u
      else if step > 1 \<and> length (fmt_4f 1 (of_int sp / of_int step)) \<le> 5
        then fmt_4f 1 (of_int sp / of_int step) @ u
      else if sp div step < 1024 then fmt_4d (sp div step) @ u
      else readable_loop sp us (step * 1024))"

definition readable_speed :: "int option \<Rightarrow> string" where
  "readable_speed sp =
     readable_loop (case sp of None \<Rightarrow> 0 | Some v \<Rightarrow> if v < 0 then 0 else v) units 1"

text \<open>
  The thresholds of \<^verbatim>\<open>graphic_speed\<close>, \<^verbatim>\<open>[0]+[int(2**(x*5.0/3)) for x in range(20)]\<close>,
  as the integers the expression evaluates to.
\<close>

definition speed_val :: "int list" where
  "speed_val = [0, 1, 3, 10, 32, 101, 322, 1024, 3250, 10321, 32768, 104031, 330280, 1048576,
     3329021, 10568983, 33554432, 106528681, 338207481, 1073741824, 3408917801]"

text \<open>The 21 glyphs, each 21 characters wide; their backslash is the character \<open>CHR 0x5C\<close>.\<close>

definition speed_gfx :: "string list" where
  "speed_gfx = [
     CHR 0x5C # ''                    '',
     ''.'' @ CHR 0x5C # ''                   '',
     ''..'' @ CHR 0x5C # ''                  '',
     ''...'' @ CHR 0x5C # ''                 '',
     ''...:'' @ CHR 0x5C # ''                '',
     ''...::'' @ CHR 0x5C # ''               '',
     ''...:::'' @ CHR 0x5C # ''              '',
     ''...:::+|             '',
     ''...:::++|            '',
     ''...:::+++|           '',
     ''...:::+++#|          '',
     ''...:::+++##|         '',
     ''...:::+++###|        '',
     ''...:::+++###%|       '',
     ''...:::+++###%%/      '',
     ''...:::+++###%%%/     '',
     ''...:::+++###%%%//    '',
     ''...:::+++###%%%///   '',
     ''...:::+++###%%%////  '',
     ''...:::+++###%%%///// '',
     ''...:::+++###%%%//////'']"

text \<open>
  The loop of \<^verbatim>\<open>graphic_speed\<close> over the adjacent thresholds \<open>low\<close>, \<open>high\<close> at
  positions \<open>i\<close>, \<open>i + 1\<close>: the position of the glyph it returns, or \<open>None\<close> when it
  runs to its end.
\<close>

fun graphic_loop :: "int \<Rightarrow> int list \<Rightarrow> nat \<Rightarrow> nat option" where
  "graphic_loop sp (low # high # rest) i =
     (if sp > high then graphic_loop sp (high # rest) (i + 1)
      else if sp - low < high - sp then Some i
      else Some (i + 1))"
| "graphic_loop sp rest i = None"

text \<open>The position in \<open>speed_gfx\<close> of the returned glyph; \<^verbatim>\<open>speed_gfx[-1]\<close> is the last.\<close>

definition graphic_index :: "int option \<Rightarrow> nat" where
  "graphic_index sp =
     (case graphic_loop (case sp of None \<Rightarrow> 0 | Some v \<Rightarrow> v) speed_val 0 of
        Some i \<Rightarrow> i
      | None \<Rightarrow> length speed_gfx - 1)"

definition graphic_speed :: "int option \<Rightarrow> string" where
  "graphic_speed sp = speed_gfx ! graphic_index sp"

section \<open>The sample log\<close>


lemma long_sign: "0 \<le> x \<Longrightarrow> 0 \<le> long x"
  by (simp add: long_def)

lemma delta_to_speed_nonneg:
  assumes "0 \<le> b"
  shows "0 \<le> delta_to_speed (t, b)"
proof (cases "t \<le> 0 \<or> long (t * 1000) = 0")
  case True
  then show ?thesis by (auto simp: delta_to_speed_def)
next
  case False
  hence "0 < long (t * 1000)" using long_sign [of "t * 1000"] by simp
  moreover have "0 \<le> long (b * 1000)" using assms by (simp add: long_sign)
  ultimately have "0 \<le> long (b * 1000) div long (t * 1000)"
    by (simp add: pos_imp_zdiv_nonneg_iff)
  with False show ?thesis by (simp add: delta_to_speed_def)
qed

lemma slice_from_neg:
  assumes "0 \<le> m"
  shows "slice_from (- (m + 1)) xs = drop (length xs - nat (m + 1)) xs"
proof -
  have "nat (max 0 (int (length xs) + - (m + 1))) = length xs - nat (m + 1)"
    using assms by (simp add: max_def) linarith
  thus ?thesis using assms by (simp add: slice_from_def)
qed

lemma drop_drop_append:
  "drop (length (drop (length xs - k) xs @ ys) - k) (drop (length xs - k) xs @ ys)
     = drop (length (xs @ ys) - k) (xs @ ys)"
  by (cases "k \<le> length xs") (auto simp: add.commute)

lemma maxlog_update [simp]: "maxlog (update s t b) = maxlog s"
  by (simp add: update_def Let_def)

lemma maxlog_updates [simp]: "maxlog (updates s rs) = maxlog s"
  by (induction rs arbitrary: s) auto

lemma start_update: "start (update s t b) = (case start s of None \<Rightarrow> Some (t, b) | Some x \<Rightarrow> Some x)"
  by (simp add: update_def Let_def split: option.splits)

lemma log_update:
  "0 \<le> maxlog s \<Longrightarrow>
   log (update s t b) = drop (length (log s @ [(t, b)]) - nat (maxlog s + 1)) (log s @ [(t, b)])"
  using slice_from_neg [of "maxlog s" "log s @ [(t, b)]"]
  by (simp add: update_def Let_def)

lemma start_updates:
  "start (updates s rs) =
     (case start s of None \<Rightarrow> (case rs of [] \<Rightarrow> None | r # _ \<Rightarrow> Some r) | Some x \<Rightarrow> Some x)"
  by (induction rs arbitrary: s) (auto simp: start_update split: option.splits list.splits)

lemma log_updates:
  "0 \<le> maxlog s \<Longrightarrow> length (log s) \<le> nat (maxlog s + 1) \<Longrightarrow>
   log (updates s rs) = drop (length (log s @ rs) - nat (maxlog s + 1)) (log s @ rs)"
proof (induction rs arbitrary: s)
  case Nil
  then show ?case by simp
next
  case (Cons r rs)
  let ?s = "update s (fst r) (snd r)"
  have l: "log ?s = drop (length (log s @ [r]) - nat (maxlog s + 1)) (log s @ [r])"
    using Cons.prems(1) log_update [of s "fst r" "snd r"] by simp
  have "length (log ?s) \<le> nat (maxlog ?s + 1)" using Cons.prems by (simp add: l)
  with Cons.IH [of ?s] Cons.prems(1)
  have "log (updates ?s rs) = drop (length (log ?s @ rs) - nat (maxlog s + 1)) (log ?s @ rs)"
    by simp
  also have "\<dots> = drop (length ((log s @ [r]) @ rs) - nat (maxlog s + 1)) ((log s @ [r]) @ rs)"
    unfolding l by (rule drop_drop_append)
  finally show ?case by simp
qed

lemma log_init_updates:
  "0 \<le> m \<Longrightarrow> log (updates (init m) rs) = drop (length rs - nat (m + 1)) rs"
  using log_updates [of "init m" rs] by (simp add: init_def)

lemma start_init_updates:
  "start (updates (init m) rs) = (case rs of [] \<Rightarrow> None | r # _ \<Rightarrow> Some r)"
  by (simp add: start_updates init_def)

subsection \<open>What \<open>delta\<close> computes once its assertions hold\<close>


lemma index_back:
  "0 \<le> k \<Longrightarrow> nat k < length xs \<Longrightarrow> index xs (- 1 - k) = Inr (xs ! (length xs - 1 - nat k))"
  by (auto simp: index_def nat_diff_distrib' intro!: arg_cong2 [where f = nth])

lemma delta_asserts:
  "delta s readings skip = Inr x \<Longrightarrow>
   0 \<le> readings \<and> readings \<le> maxlog s \<and> 0 \<le> skip \<and> (0 < skip \<longrightarrow> 0 < readings)"
  by (auto simp: delta_def split: if_splits)

lemma delta_eval:
  assumes "0 \<le> readings" "readings \<le> maxlog s" "0 \<le> skip" "0 < skip \<longrightarrow> 0 < readings"
  shows "delta s readings skip =
     (if length (log s) \<le> nat skip then Inr None
      else case (if readings = 0 then start s
                 else if nat (readings + skip) < length (log s)
                   then Some (log s ! (length (log s) - 1 - nat (readings + skip)))
                 else None) of
             None \<Rightarrow> Inr None
           | Some target \<Rightarrow>
               (let current = log s ! (length (log s) - 1 - nat skip)
                in if target = current then Inr None
                   else Inr (Some (fst current - fst target, snd current - snd target))))"
proof (cases "length (log s) \<le> nat skip")
  case True
  hence "skip > int (length (log s)) - 1" using assms(3) by linarith
  with assms True show ?thesis by (auto simp: delta_def)
next
  case False
  hence a: "\<not> skip > int (length (log s)) - 1" using assms(3) by linarith
  have c: "index (log s) (- 1 - skip) = Inr (log s ! (length (log s) - 1 - nat skip))"
    using False assms(3) by (simp add: index_back)
  show ?thesis
  proof (cases "readings = 0")
    case True
    with assms a c False show ?thesis
      by (auto simp: delta_def Let_def split: option.splits)
  next
    case r: False
    show ?thesis
    proof (cases "nat (readings + skip) < length (log s)")
      case True
      hence g: "int (length (log s)) > readings + skip" using assms by linarith
      have "index (log s) (- 1 - (readings + skip))
              = Inr (log s ! (length (log s) - 1 - nat (readings + skip)))"
        using True assms by (intro index_back) auto
      moreover have "- (readings + skip + 1) = - 1 - (readings + skip)" by simp
      ultimately have t: "index (log s) (- (readings + skip + 1))
              = Inr (log s ! (length (log s) - 1 - nat (readings + skip)))" by (simp only:)
      from assms a c False r True g show ?thesis
        unfolding delta_def t by (auto simp: Let_def split: option.splits)
    next
      case n: False
      hence g: "\<not> int (length (log s)) > readings + skip" using assms by linarith
      from assms a c False r n g show ?thesis
        unfolding delta_def by (auto simp: Let_def split: option.splits)
    qed
  qed
qed

lemma delta_no_IndexError: "delta s readings skip \<noteq> Inl IndexError"
proof (cases "0 \<le> readings \<and> readings \<le> maxlog s \<and> 0 \<le> skip \<and> (0 < skip \<longrightarrow> 0 < readings)")
  case True
  then show ?thesis by (simp add: delta_eval Let_def split: option.splits)
next
  case False
  then show ?thesis by (auto simp: delta_def)
qed

lemma delta_SomeD:
  assumes "delta s readings skip = Inr (Some d)"
  shows "\<exists>current target.
           target \<noteq> current \<and> d = (fst current - fst target, snd current - snd target) \<and>
           current \<in> set (log s) \<and>
           ((readings = 0 \<and> start s = Some target) \<or>
            (\<exists>i j. i < j \<and> j < length (log s) \<and> target = log s ! i \<and> current = log s ! j))"
proof -
  note a = delta_asserts [OF assms]
  from a have e: "delta s readings skip = 
     (if length (log s) \<le> nat skip then Inr None
      else case (if readings = 0 then start s
                 else if nat (readings + skip) < length (log s)
                   then Some (log s ! (length (log s) - 1 - nat (readings + skip)))
                 else None) of
             None \<Rightarrow> Inr None
           | Some target \<Rightarrow>
               (let current = log s ! (length (log s) - 1 - nat skip)
                in if target = current then Inr None
                   else Inr (Some (fst current - fst target, snd current - snd target))))"
    by (intro delta_eval) auto
  let ?c = "log s ! (length (log s) - 1 - nat skip)"
  from assms e have l: "nat skip < length (log s)" by (auto split: if_splits)
  hence cin: "?c \<in> set (log s)" by simp
  show ?thesis
  proof (cases "readings = 0")
    case True
    with assms e l obtain tg where "start s = Some tg" "tg \<noteq> ?c"
        "d = (fst ?c - fst tg, snd ?c - snd tg)"
      by (auto simp: Let_def split: option.splits if_splits)
    with True cin show ?thesis by blast
  next
    case False
    let ?t = "log s ! (length (log s) - 1 - nat (readings + skip))"
    from False assms e l have g: "nat (readings + skip) < length (log s)" "?t \<noteq> ?c"
        "d = (fst ?c - fst ?t, snd ?c - snd ?t)"
      by (auto simp: Let_def split: option.splits if_splits)
    have "length (log s) - 1 - nat (readings + skip) < length (log s) - 1 - nat skip"
      using g(1) False a by linarith
    moreover have "length (log s) - 1 - nat skip < length (log s)" using l by linarith
    ultimately show ?thesis using g cin by blast
  qed
qed


section \<open>The speed converter\<close>










subsection \<open>The state after recording a list of readings\<close>

lemma delta_ordered:
  assumes d: "delta (updates (init m) rs) readings skip = Inr (Some d)"
    and R: "sorted_wrt R rs"
  shows "\<exists>c tg. R tg c \<and> d = (fst c - fst tg, snd c - snd tg)"
proof -
  let ?s = "updates (init m) rs"
  from delta_asserts [OF d] have m: "0 \<le> m" by (simp add: init_def)
  hence lg: "log ?s = drop (length rs - nat (m + 1)) rs" by (rule log_init_updates)
  from delta_SomeD [OF d] obtain c tg where
    ne: "tg \<noteq> c" and dd: "d = (fst c - fst tg, snd c - snd tg)" and cin: "c \<in> set (log ?s)"
    and sel: "(readings = 0 \<and> start ?s = Some tg) \<or>
       (\<exists>i j. i < j \<and> j < length (log ?s) \<and> tg = log ?s ! i \<and> c = log ?s ! j)"
    by blast
  from sel have "R tg c"
  proof
    assume "readings = 0 \<and> start ?s = Some tg"
    then obtain rs' where rs: "rs = tg # rs'"
      by (auto simp: start_init_updates split: list.splits)
    from cin have "c \<in> set rs" unfolding lg by (rule in_set_dropD)
    with ne rs have "c \<in> set rs'" by auto
    with R rs show ?thesis by simp
  next
    assume "\<exists>i j. i < j \<and> j < length (log ?s) \<and> tg = log ?s ! i \<and> c = log ?s ! j"
    then obtain i j where ij: "i < j" "j < length (log ?s)" "tg = log ?s ! i" "c = log ?s ! j"
      by blast
    have "sorted_wrt R (log ?s)" unfolding lg using R by (rule sorted_wrt_drop)
    from sorted_wrt_nth_less [OF this ij(1,2)] ij show ?thesis by simp
  qed
  with dd show ?thesis by blast
qed

lemma delta_since_start:
  assumes "0 \<le> m" "rs \<noteq> []"
  shows "delta (updates (init m) rs) 0 0 =
     Inr (if hd rs = last rs then None
          else Some (fst (last rs) - fst (hd rs), snd (last rs) - snd (hd rs)))"
proof -
  let ?s = "updates (init m) rs"
  have lg: "log ?s = drop (length rs - nat (m + 1)) rs" using assms(1) by (rule log_init_updates)
  have n: "length rs - nat (m + 1) < length rs" using assms by (cases rs) auto
  hence ne: "log ?s \<noteq> []" unfolding lg by simp
  have "log ?s ! (length (log ?s) - 1 - nat 0) = last (log ?s)"
    using ne by (simp add: last_conv_nth)
  also have "\<dots> = last rs" unfolding lg using n by (rule last_drop)
  finally have c: "log ?s ! (length (log ?s) - 1 - nat 0) = last rs" .
  have st: "start ?s = Some (hd rs)" unfolding start_init_updates using assms(2)
    by (cases rs) simp_all
  have "delta ?s 0 0 =
     (if length (log ?s) \<le> nat 0 then Inr None
      else case (if (0::int) = 0 then start ?s
                 else if nat (0 + 0) < length (log ?s)
                   then Some (log ?s ! (length (log ?s) - 1 - nat (0 + 0)))
                 else None) of
             None \<Rightarrow> Inr None
           | Some target \<Rightarrow>
               (let current = log ?s ! (length (log ?s) - 1 - nat 0)
                in if target = current then Inr None
                   else Inr (Some (fst current - fst target, snd current - snd target))))"
    using assms(1) by (intro delta_eval) (simp_all add: init_def)
  thus ?thesis unfolding c st using ne by (simp add: Let_def)
qed

section \<open>Properties of the sample log\<close>

text \<open>
  C3: when the counters of the recorded readings never decrease, every delta the log
  returns has a byte increase that is not negative, \<open>delta_to_speed\<close> maps it to a rate
  that is not negative, and so is every rate that \<open>speed\<close> returns. A byte increase
  that is not negative gives a rate that is not negative whatever the elapsed time.
\<close>

theorem speed_nonneg:
  assumes "sorted (map snd rs)"
  shows "(\<forall>readings skip d. delta (updates (init m) rs) readings skip = Inr (Some d) \<longrightarrow>
            0 \<le> snd d \<and> 0 \<le> delta_to_speed (fst d, of_int (snd d)))
       \<and> (\<forall>readings skip r. speed (updates (init m) rs) readings skip = Inr (Some r) \<longrightarrow> 0 \<le> r)"
proof -
  have R: "sorted_wrt (\<lambda>x y. snd x \<le> snd y) rs"
    using assms by (simp add: sorted_wrt_map)
  have key: "0 \<le> snd d"
    if "delta (updates (init m) rs) readings skip = Inr (Some d)" for readings skip d
    using delta_ordered [OF that R] by auto
  have one: "0 \<le> snd d \<and> 0 \<le> delta_to_speed (fst d, of_int (snd d))"
    if "delta (updates (init m) rs) readings skip = Inr (Some d)" for readings skip d
    using key [OF that] by (simp add: delta_to_speed_nonneg)
  have two: "0 \<le> r"
    if "speed (updates (init m) rs) readings skip = Inr (Some r)" for readings skip r
  proof -
    from that obtain d where "delta (updates (init m) rs) readings skip = Inr (Some d)"
        "r = delta_to_speed (fst d, of_int (snd d))"
      by (auto simp: speed_def split: sum.splits option.splits)
    with one show ?thesis by blast
  qed
  from one two show ?thesis by blast
qed

theorem speed_nonneg_witness:
  "sorted (map snd [(0, 0), (1, 1000), (2, 3000 :: int)])
   \<and> speed (updates (init 6) [(0, 0), (1, 1000), (2, 3000)]) 1 0 = Inr (Some 2000)
   \<and> (0::int) \<le> 2000"
proof -
  have a: "sorted (map snd [(0 :: rat, 0), (1, 1000), (2, 3000 :: int)])" by simp
  have b: "speed (updates (init 6) [(0, 0), (1, 1000), (2, 3000)]) 1 0 = Inr (Some 2000)"
    by code_simp
  from speed_nonneg [OF a, of 6] b have "(0::int) \<le> 2000" by blast
  with a b show ?thesis by simp
qed


text \<open>
  C4: for a capacity \<open>m\<close> that is not negative, after recording the readings \<open>rs\<close>
  (oldest first) the log is \<open>rs\<close> without its oldest \<open>length rs - (m + 1)\<close> readings: it
  holds at most \<open>m + 1\<close> readings, the oldest are the ones dropped, and after \<open>m + 2\<close>
  readings it holds exactly the \<open>m + 1\<close> newest. The first reading becomes \<open>start\<close>, a
  later update never changes a \<open>start\<close> that is set, and \<open>delta\<close> with \<open>readings = 0\<close>
  measures from that first reading also when the log no longer holds it.
\<close>

theorem log_bounded_fifo:
  assumes "0 \<le> m"
  shows "log (updates (init m) rs) = drop (length rs - nat (m + 1)) rs
       \<and> int (length (log (updates (init m) rs))) \<le> m + 1
       \<and> (int (length rs) = m + 2 \<longrightarrow>
            log (updates (init m) rs) = tl rs \<and> int (length (log (updates (init m) rs))) = m + 1)
       \<and> start (updates (init m) rs) = (if rs = [] then None else Some (hd rs))
       \<and> (start s = None \<longrightarrow> start (update s t b) = Some (t, b))
       \<and> (start s \<noteq> None \<longrightarrow> start (updates s rs) = start s)
       \<and> (rs \<noteq> [] \<longrightarrow> delta (updates (init m) rs) 0 0 =
             Inr (if hd rs = last rs then None
                  else Some (fst (last rs) - fst (hd rs), snd (last rs) - snd (hd rs))))"
proof (intro conjI impI)
  show lg: "log (updates (init m) rs) = drop (length rs - nat (m + 1)) rs"
    using assms by (rule log_init_updates)
  show "int (length (log (updates (init m) rs))) \<le> m + 1"
    unfolding lg using assms by simp
  show "log (updates (init m) rs) = tl rs" if "int (length rs) = m + 2"
  proof -
    from that assms have "length rs - nat (m + 1) = 1" by linarith
    thus ?thesis unfolding lg by (simp add: drop_Suc)
  qed
  show "int (length (log (updates (init m) rs))) = m + 1" if "int (length rs) = m + 2"
    unfolding lg using that assms by simp
  show "start (updates (init m) rs) = (if rs = [] then None else Some (hd rs))"
    unfolding start_init_updates by (cases rs) simp_all
  show "start (update s t b) = Some (t, b)" if "start s = None"
    using that by (simp add: start_update)
  show "start (updates s rs) = start s" if "start s \<noteq> None"
    using that by (auto simp: start_updates)
  show "delta (updates (init m) rs) 0 0 =
      Inr (if hd rs = last rs then None
           else Some (fst (last rs) - fst (hd rs), snd (last rs) - snd (hd rs)))"
    if "rs \<noteq> []"
    using assms that by (rule delta_since_start)
qed

theorem log_bounded_fifo_witness:
  "log (updates (init 1) [(0, 0), (1, 10), (2, 30)]) = [(1, 10), (2, 30)]
   \<and> start (updates (init 1) [(0, 0), (1, 10), (2, 30)]) = Some (0, 0)
   \<and> delta (updates (init 1) [(0, 0), (1, 10), (2, 30)]) 0 0 = Inr (Some (2, 30))
   \<and> start (updates (updates (init 1) [(0, 0)]) [(1, 10), (2, 30)]) = Some (0, 0)
   \<and> start (update (init 1) 0 0) = Some (0, 0)"
proof -
  have m: "(0::int) \<le> 1" by simp
  note f = log_bounded_fifo [OF m, of "[(0, 0), (1, 10), (2, 30)]"]
  have l: "int (length [(0 :: rat, 0 :: int), (1, 10), (2, 30)]) = 1 + 2" by simp
  have "log (updates (init 1) [(0, 0), (1, 10), (2, 30)]) = tl [(0, 0), (1, 10), (2, 30)]"
    using f l by blast
  hence a: "log (updates (init 1) [(0, 0), (1, 10), (2, 30)]) = [(1, 10), (2, 30)]" by simp
  have "start (updates (init 1) [(0, 0), (1, 10), (2, 30)]) =
      (if [(0 :: rat, 0 :: int), (1, 10), (2, 30)] = [] then None
       else Some (hd [(0, 0), (1, 10), (2, 30)]))"
    using f by blast
  hence b: "start (updates (init 1) [(0, 0), (1, 10), (2, 30)]) = Some (0, 0)" by simp
  have ne: "[(0 :: rat, 0 :: int), (1, 10), (2, 30)] \<noteq> []" by simp
  have "delta (updates (init 1) [(0, 0), (1, 10), (2, 30)]) 0 0 =
      Inr (if hd [(0 :: rat, 0 :: int), (1, 10), (2, 30)] = last [(0, 0), (1, 10), (2, 30)] then None
           else Some (fst (last [(0 :: rat, 0 :: int), (1, 10), (2, 30)]) - fst (hd [(0 :: rat, 0 :: int), (1, 10), (2, 30)]),
                      snd (last [(0 :: rat, 0 :: int), (1, 10), (2, 30)]) - snd (hd [(0 :: rat, 0 :: int), (1, 10), (2, 30)])))"
    using f ne by blast
  hence c: "delta (updates (init 1) [(0, 0), (1, 10), (2, 30)]) 0 0 = Inr (Some (2, 30))" by simp
  have s0: "start (init 1) = None" by (simp add: init_def)
  have e: "start (update (init 1) 0 0) = Some (0, 0)"
    using log_bounded_fifo [OF m, of "[]" "init 1" 0 0] s0 by blast
  have s1: "start (updates (init 1) [(0, 0)]) \<noteq> None" using e by simp
  have "start (updates (updates (init 1) [(0, 0)]) [(1, 10), (2, 30)]) = start (updates (init 1) [(0, 0)])"
    using log_bounded_fifo [OF m, of "[(1, 10), (2, 30)]" "updates (init 1) [(0, 0)]"] s1 by blast
  hence d: "start (updates (updates (init 1) [(0, 0)]) [(1, 10), (2, 30)]) = Some (0, 0)"
    using e by simp
  from a b c d e show ?thesis by blast
qed

text \<open>
  C5, as stated: after two or more readings \<open>delta(0, 0)\<close> would always be a pair. Two
  readings with the same timestamp and the same counter are equal as pairs, and the
  code then returns \<^verbatim>\<open>None\<close>.
\<close>

theorem delta_since_start_equal_readings:
  "delta (updates (init 6) [(0, 5), (0, 5)]) 0 0 = Inr None"
  by code_simp

text \<open>
  C5, amended: for a capacity that is not negative, after exactly one reading
  \<open>delta(0, 0)\<close> is \<^verbatim>\<open>None\<close>; after two or more readings of which the newest differs
  from the first (as a pair of timestamp and counter), it is the pair of the newest
  timestamp minus the first timestamp and the newest counter minus the first counter.
  For the samples (0, 0), (1, 1000), (2, 3000), \<open>speed(1)\<close> is 2000 and \<open>speed()\<close> is
  1500.
\<close>

theorem delta_since_start_spec:
  assumes "0 \<le> m"
  shows "delta (updates (init m) [r]) 0 0 = Inr None
       \<and> (2 \<le> length rs \<and> last rs \<noteq> hd rs \<longrightarrow>
            delta (updates (init m) rs) 0 0 =
              Inr (Some (fst (last rs) - fst (hd rs), snd (last rs) - snd (hd rs))))
       \<and> speed (updates (init 6) [(0, 0), (1, 1000), (2, 3000)]) 1 0 = Inr (Some 2000)
       \<and> speed (updates (init 6) [(0, 0), (1, 1000), (2, 3000)]) 0 0 = Inr (Some 1500)"
proof (intro conjI impI)
  show "delta (updates (init m) [r]) 0 0 = Inr None"
    using delta_since_start [OF assms, of "[r]"] by simp
  show "delta (updates (init m) rs) 0 0 =
      Inr (Some (fst (last rs) - fst (hd rs), snd (last rs) - snd (hd rs)))"
    if h: "2 \<le> length rs \<and> last rs \<noteq> hd rs"
  proof -
    from h have "rs \<noteq> []" by auto
    from delta_since_start [OF assms this] h show ?thesis by auto
  qed
  show "speed (updates (init 6) [(0, 0), (1, 1000), (2, 3000)]) 1 0 = Inr (Some 2000)"
    by code_simp
  show "speed (updates (init 6) [(0, 0), (1, 1000), (2, 3000)]) 0 0 = Inr (Some 1500)"
    by code_simp
qed

theorem delta_since_start_spec_witness:
  "delta (updates (init 6) [(0, 0), (1, 1000)]) 0 0 = Inr (Some (1, 1000))
   \<and> delta (updates (init 6) [(0, 0)]) 0 0 = Inr None"
proof -
  have m: "(0::int) \<le> 6" by simp
  have h: "2 \<le> length [(0 :: rat, 0 :: int), (1, 1000)]
      \<and> last [(0 :: rat, 0 :: int), (1, 1000)] \<noteq> hd [(0, 0), (1, 1000)]" by simp
  have "delta (updates (init 6) [(0, 0), (1, 1000)]) 0 0 =
      Inr (Some (fst (last [(0 :: rat, 0 :: int), (1, 1000)]) - fst (hd [(0 :: rat, 0 :: int), (1, 1000)]),
                 snd (last [(0 :: rat, 0 :: int), (1, 1000)]) - snd (hd [(0 :: rat, 0 :: int), (1, 1000)])))"
    using delta_since_start_spec [OF m, of "(0, 0)" "[(0, 0), (1, 1000)]"] h by blast
  hence a: "delta (updates (init 6) [(0, 0), (1, 1000)]) 0 0 = Inr (Some (1, 1000))" by simp
  have b: "delta (updates (init 6) [(0, 0)]) 0 0 = Inr None"
    using delta_since_start_spec [OF m, of "(0, 0)" "[]"] by blast
  from a b show ?thesis by blast
qed

text \<open>
  C6: in every state of the log, \<open>delta\<close> called with \<open>readings < 0\<close>, with \<open>readings\<close>
  above the capacity, with \<open>skip < 0\<close>, or with \<open>skip > 0\<close> while \<open>readings = 0\<close>, raises
  the assertion error: it returns neither a delta nor \<^verbatim>\<open>None\<close>.
\<close>

theorem delta_invalid_arguments:
  assumes "readings < 0 \<or> maxlog s < readings \<or> skip < 0 \<or> (0 < skip \<and> readings = 0)"
  shows "delta s readings skip = Inl AssertionError"
  using assms by (auto simp: delta_def)

theorem delta_invalid_arguments_witness:
  "delta (updates (init 6) [(0, 0), (1, 1000)]) (- 1) 0 = Inl AssertionError
   \<and> delta (updates (init 6) [(0, 0), (1, 1000)]) 7 0 = Inl AssertionError
   \<and> delta (updates (init 6) [(0, 0), (1, 1000)]) 1 (- 1) = Inl AssertionError
   \<and> delta (updates (init 6) [(0, 0), (1, 1000)]) 0 1 = Inl AssertionError"
proof -
  let ?s = "updates (init 6) [(0, 0), (1, 1000)]"
  have "delta ?s (- 1) 0 = Inl AssertionError"
    by (rule delta_invalid_arguments) simp
  moreover have "delta ?s 7 0 = Inl AssertionError"
    by (rule delta_invalid_arguments) (simp add: init_def)
  moreover have "delta ?s 1 (- 1) = Inl AssertionError"
    by (rule delta_invalid_arguments) simp
  moreover have "delta ?s 0 1 = Inl AssertionError"
    by (rule delta_invalid_arguments) simp
  ultimately show ?thesis by blast
qed

text \<open>
  C10: \<open>delta\<close> compares the two readings it selects as values. Whenever the arguments
  pass the assertions, the log reaches back \<open>skip\<close> readings, and the selected target
  (\<open>start\<close> for \<open>readings = 0\<close>, else the reading \<open>readings + skip\<close> back) equals the
  current reading as a pair, the result is \<^verbatim>\<open>None\<close>; no call ever returns the delta
  (0, 0). Two different entries of the log with one timestamp and one counter are such
  a case.
\<close>

theorem delta_compares_by_value:
  "(0 \<le> readings \<and> readings \<le> maxlog s \<and> 0 \<le> skip \<and> (0 < skip \<longrightarrow> 0 < readings)
     \<and> nat skip < length (log s)
     \<and> (if readings = 0 then start s
         else if nat (readings + skip) < length (log s)
           then Some (log s ! (length (log s) - 1 - nat (readings + skip)))
         else None) = Some (log s ! (length (log s) - 1 - nat skip))
     \<longrightarrow> delta s readings skip = Inr None)
   \<and> delta s readings skip \<noteq> Inr (Some (0, 0))
   \<and> log (updates (init 6) [(0, 0), (1, 5), (1, 5)]) = [(0, 0), (1, 5), (1, 5)]
   \<and> delta (updates (init 6) [(0, 0), (1, 5), (1, 5)]) 1 0 = Inr None"
proof (intro conjI impI)
  assume h: "0 \<le> readings \<and> readings \<le> maxlog s \<and> 0 \<le> skip \<and> (0 < skip \<longrightarrow> 0 < readings)
     \<and> nat skip < length (log s)
     \<and> (if readings = 0 then start s
         else if nat (readings + skip) < length (log s)
           then Some (log s ! (length (log s) - 1 - nat (readings + skip)))
         else None) = Some (log s ! (length (log s) - 1 - nat skip))"
  hence "delta s readings skip =
     (if length (log s) \<le> nat skip then Inr None
      else case (if readings = 0 then start s
                 else if nat (readings + skip) < length (log s)
                   then Some (log s ! (length (log s) - 1 - nat (readings + skip)))
                 else None) of
             None \<Rightarrow> Inr None
           | Some target \<Rightarrow>
               (let current = log s ! (length (log s) - 1 - nat skip)
                in if target = current then Inr None
                   else Inr (Some (fst current - fst target, snd current - snd target))))"
    by (intro delta_eval) auto
  also have "\<dots> = Inr None" using h by (simp add: Let_def del: One_nat_def)
  finally show "delta s readings skip = Inr None" .
next
  show "delta s readings skip \<noteq> Inr (Some (0, 0))"
  proof
    assume "delta s readings skip = Inr (Some (0, 0))"
    from delta_SomeD [OF this] obtain c tg :: reading where "tg \<noteq> c"
        "(0, 0) = (fst c - fst tg, snd c - snd tg)" by blast
    thus False by (cases c, cases tg) auto
  qed
next
  show "log (updates (init 6) [(0, 0), (1, 5), (1, 5)]) = [(0, 0), (1, 5), (1, 5)]"
    by code_simp
  show "delta (updates (init 6) [(0, 0), (1, 5), (1, 5)]) 1 0 = Inr None"
    by code_simp
qed

theorem delta_compares_by_value_witness:
  "delta \<lparr>log = [(0, 0), (1, 5), (1, 5)], start = Some (0, 0), maxlog = 6\<rparr> 1 0 = Inr None"
  using delta_compares_by_value
    [of 1 "\<lparr>log = [(0, 0), (1, 5), (1, 5)], start = Some (0, 0), maxlog = 6\<rparr>" 0]
  by simp


section \<open>The curve smoother\<close>

lemma delta_error: "delta s readings skip = Inl e \<Longrightarrow> e = AssertionError"
proof (cases "0 \<le> readings \<and> readings \<le> maxlog s \<and> 0 \<le> skip \<and> (0 < skip \<longrightarrow> 0 < readings)")
  case True
  moreover assume "delta s readings skip = Inl e"
  ultimately show ?thesis by (simp add: delta_eval Let_def split: option.splits if_splits)
next
  case False
  moreover assume "delta s readings skip = Inl e"
  ultimately show ?thesis by (auto simp: delta_def split: if_splits)
qed

lemma delta_single_step_returns:
  assumes "1 \<le> maxlog s" "0 \<le> i"
  shows "\<exists>r. delta s 1 i = Inr r"
  using assms delta_eval [of 1 s i] by (auto simp: Let_def split: option.splits)

lemma curve_loop_no_zero_division:
  assumes "\<And>i d. delta s 1 i = Inr (Some d) \<Longrightarrow> fst d \<noteq> 0"
  shows "curve_loop s vs i w ws \<noteq> Inl ZeroDivisionError"
proof (induction vs arbitrary: i w ws)
  case Nil
  show ?case by simp
next
  case (Cons v vs)
  show ?case
  proof (cases "delta s 1 i")
    case (Inl e)
    with delta_error [OF this] show ?thesis by simp
  next
    case (Inr r)
    show ?thesis
    proof (cases r)
      case None
      with Inr show ?thesis by simp
    next
      case (Some d)
      with Inr assms have "fst d \<noteq> 0" by blast
      with Inr Some Cons.IH show ?thesis by (simp add: Let_def)
    qed
  qed
qed

lemma curve_loop_returns:
  assumes "1 \<le> maxlog s" "\<And>i d. delta s 1 i = Inr (Some d) \<Longrightarrow> fst d \<noteq> 0" "0 \<le> i"
  shows "\<exists>r. curve_loop s vs i w ws = Inr r"
  using assms(3)
proof (induction vs arbitrary: i w ws)
  case Nil
  show ?case by simp
next
  case (Cons v vs)
  from delta_single_step_returns [OF assms(1) Cons.prems] obtain r where r: "delta s 1 i = Inr r"
    by blast
  show ?case
  proof (cases r)
    case None
    with r show ?thesis by simp
  next
    case (Some d)
    with r assms(2) have "fst d \<noteq> 0" by blast
    moreover have "0 \<le> i + 1" using Cons.prems by simp
    ultimately show ?thesis using r Some Cons.IH [of "i + 1"] by (simp add: Let_def)
  qed
qed

text \<open>
  C9: when the timestamps of the recorded readings strictly increase, every delta the
  log returns has a positive elapsed time, so \<open>curve\<close> never raises the division error,
  and with a capacity of at least one it returns a rate. The division itself is not
  guarded: in any state where the newest single-step delta has elapsed time zero (two
  readings with one timestamp and different counters), \<open>curve\<close> raises.
\<close>

theorem curve_division_safe:
  assumes "sorted_wrt (<) (map fst rs)"
  shows "(\<forall>readings skip d. delta (updates (init m) rs) readings skip = Inr (Some d) \<longrightarrow> 0 < fst d)
       \<and> curve (updates (init m) rs) \<noteq> Inl ZeroDivisionError
       \<and> (1 \<le> m \<longrightarrow> (\<exists>r. curve (updates (init m) rs) = Inr r))
       \<and> (delta s 1 0 = Inr (Some (0, b)) \<longrightarrow> curve s = Inl ZeroDivisionError)
       \<and> curve (updates (init 6) [(0, 0), (0, 5)]) = Inl ZeroDivisionError"
proof -
  let ?s = "updates (init m) rs"
  have R: "sorted_wrt (\<lambda>x y. fst x < fst y) rs"
    using assms by (simp add: sorted_wrt_map)
  have pos: "0 < fst d" if "delta ?s readings skip = Inr (Some d)" for readings skip d
    using delta_ordered [OF that R] by auto
  hence nz: "fst d \<noteq> 0" if "delta ?s 1 i = Inr (Some d)" for i d
    using that by fastforce
  have a: "curve ?s \<noteq> Inl ZeroDivisionError"
    using curve_loop_no_zero_division [of ?s val 0 0 0, OF nz]
    by (auto simp: curve_def split: sum.splits)
  have b: "\<exists>r. curve ?s = Inr r" if "1 \<le> m"
  proof -
    have "\<exists>r. curve_loop ?s val 0 0 0 = Inr r"
    proof (rule curve_loop_returns)
      show "1 \<le> maxlog ?s" using that by (simp add: init_def)
      show "fst d \<noteq> 0" if "delta ?s 1 i = Inr (Some d)" for i d
        using that by (rule nz)
      show "(0 :: int) \<le> 0" by simp
    qed
    then obtain r where "curve_loop ?s val 0 0 0 = Inr r" by blast
    thus ?thesis by (cases r) (simp add: curve_def)
  qed
  have c: "curve s = Inl ZeroDivisionError" if "delta s 1 0 = Inr (Some (0, b))"
    using that by (simp add: curve_def val_def)
  have d: "curve (updates (init 6) [(0, 0), (0, 5)]) = Inl ZeroDivisionError"
    by code_simp
  from pos a b c d show ?thesis by blast
qed

theorem curve_division_safe_witness:
  "sorted_wrt (<) (map fst [(0 :: rat, 0 :: int), (1, 1000), (2, 3000)])
   \<and> delta (updates (init 6) [(0, 0), (1, 1000), (2, 3000)]) 1 1 = Inr (Some (1, 1000))
   \<and> (0 :: rat) < 1
   \<and> curve (updates (init 6) [(0, 0), (1, 1000), (2, 3000)]) = Inr 1545"
proof -
  have a: "sorted_wrt (<) (map fst [(0 :: rat, 0 :: int), (1, 1000), (2, 3000)])" by simp
  note f = curve_division_safe [OF a, of 6]
  have b: "delta (updates (init 6) [(0, 0), (1, 1000), (2, 3000)]) 1 1 = Inr (Some (1, 1000))"
    by code_simp
  have "0 < fst (1 :: rat, 1000 :: int)" using f b by blast
  hence c: "(0 :: rat) < 1" by simp
  have "\<exists>r. curve (updates (init 6) [(0, 0), (1, 1000), (2, 3000)]) = Inr r"
    using f by simp
  moreover have "curve (updates (init 6) [(0, 0), (1, 1000), (2, 3000)]) = Inr 1545"
    by code_simp
  ultimately show ?thesis using a b c by blast
qed




section \<open>The glyph of a rate\<close>

lemma graphic_loop_Some:
  assumes "sorted_wrt (<) ys" "graphic_loop v ys i = Some j"
  shows "i \<le> j \<and> j - i < length ys \<and>
         (\<forall>y \<in> set ys. \<bar>v - ys ! (j - i)\<bar> \<le> \<bar>v - y\<bar> \<and>
            (\<bar>v - y\<bar> = \<bar>v - ys ! (j - i)\<bar> \<longrightarrow> y \<le> ys ! (j - i)))"
  using assms
proof (induction v ys i arbitrary: j rule: graphic_loop.induct)
  case (1 sp low high rest i)
  from "1.prems"(1) have lh: "low < high" and hr: "\<forall>y \<in> set rest. high < y"
    and s': "sorted_wrt (<) (high # rest)" by auto
  show ?case
  proof (cases "sp > high")
    case True
    with "1.prems"(2) have g: "graphic_loop sp (high # rest) (i + 1) = Some j" by simp
    note ih = "1.IH" [OF True s' g]
    from ih have ij: "i + 1 \<le> j" by simp
    hence e: "j - i = Suc (j - (i + 1))" by simp
    let ?c = "(high # rest) ! (j - (i + 1))"
    have c: "(low # high # rest) ! (j - i) = ?c" unfolding e by simp
    from ih have "\<bar>sp - ?c\<bar> \<le> \<bar>sp - high\<bar>" by simp
    with True lh have low: "\<bar>sp - ?c\<bar> < \<bar>sp - low\<bar>" by linarith
    from ij have a: "i \<le> j" by simp
    from ih have "j - (i + 1) < length (high # rest)" by blast
    with ij have b: "j - i < length (low # high # rest)" by simp
    have d: "\<forall>y \<in> set (low # high # rest). \<bar>sp - ?c\<bar> \<le> \<bar>sp - y\<bar> \<and>
            (\<bar>sp - y\<bar> = \<bar>sp - ?c\<bar> \<longrightarrow> y \<le> ?c)"
      using ih low by auto
    from a b d show ?thesis unfolding c by blast
  next
    case False
    show ?thesis
    proof (cases "sp - low < high - sp")
      case True
      with False "1.prems"(2) have j: "j = i" by simp
      from True False lh hr show ?thesis unfolding j by (auto simp: abs_if)
    next
      case f: False
      with False "1.prems"(2) have j: "j = i + 1" by simp
      from f False lh hr show ?thesis unfolding j by (auto simp: abs_if)
    qed
  qed
qed simp_all

lemma graphic_loop_None:
  assumes "sorted_wrt (<) ys" "graphic_loop v ys i = None" "2 \<le> length ys"
  shows "\<forall>y \<in> set ys. y < v"
  using assms
proof (induction v ys i rule: graphic_loop.induct)
  case (1 sp low high rest i)
  from "1.prems"(1) have lh: "low < high" and s': "sorted_wrt (<) (high # rest)" by auto
  from "1.prems"(2) have h: "sp > high"
    by (auto split: if_splits)
  with "1.prems"(2) have g: "graphic_loop sp (high # rest) (i + 1) = None" by simp
  show ?case
  proof (cases rest)
    case Nil
    with lh h show ?thesis by simp
  next
    case (Cons x xs)
    hence "2 \<le> length (high # rest)" by simp
    from "1.IH" [OF h s' g this] lh h show ?thesis by simp
  qed
qed simp_all

lemma speed_val_sorted: "sorted_wrt (<) speed_val"
  by (simp add: speed_val_def)

lemma speed_val_length: "length speed_val = 21"
  by (simp add: speed_val_def)

lemma speed_gfx_length: "length speed_gfx = 21"
  by (simp add: speed_gfx_def)

lemma speed_gfx_distinct: "distinct speed_gfx"
  by (simp add: speed_gfx_def)

lemma graphic_index_closest:
  "graphic_index (Some v) < 21 \<and>
   (\<forall>y \<in> set speed_val. \<bar>v - speed_val ! graphic_index (Some v)\<bar> \<le> \<bar>v - y\<bar> \<and>
      (\<bar>v - y\<bar> = \<bar>v - speed_val ! graphic_index (Some v)\<bar> \<longrightarrow>
         y \<le> speed_val ! graphic_index (Some v)))"
proof (cases "graphic_loop v speed_val 0")
  case None
  hence i: "graphic_index (Some v) = 20" by (simp add: graphic_index_def speed_gfx_length)
  have l: "speed_val ! 20 = last speed_val" by (simp add: speed_val_def)
  from graphic_loop_None [OF speed_val_sorted None] have b: "\<forall>y \<in> set speed_val. y < v"
    by (simp add: speed_val_length)
  have s: "sorted speed_val" using speed_val_sorted by (rule strict_sorted_imp_sorted)
  have m: "\<forall>y \<in> set speed_val. y \<le> last speed_val"
  proof
    fix y assume "y \<in> set speed_val"
    then obtain k where k: "k < length speed_val" "y = speed_val ! k" by (auto simp: in_set_conv_nth)
    hence "speed_val ! k \<le> speed_val ! 20"
      using s by (intro sorted_nth_mono) (simp_all add: speed_val_length)
    with k l show "y \<le> last speed_val" by simp
  qed
  have "last speed_val \<in> set speed_val" by (simp add: speed_val_def)
  with b have "last speed_val < v" by blast
  with b m show ?thesis unfolding i l by (auto simp: abs_if)
next
  case (Some j)
  hence i: "graphic_index (Some v) = j" by (simp add: graphic_index_def)
  from graphic_loop_Some [OF speed_val_sorted Some] show ?thesis
    unfolding i by (simp add: speed_val_length)
qed

lemma floor_powr_cube:
  fixes v :: int and x :: nat
  assumes "0 \<le> v" "v ^ 3 \<le> 2 ^ (5 * x)" "2 ^ (5 * x) < (v + 1) ^ 3"
  shows "\<lfloor>(2 :: real) powr (real x * 5 / 3)\<rfloor> = v"
proof (rule floor_unique)
  let ?r = "(2 :: real) powr (real x * 5 / 3)"
  have r0: "0 \<le> ?r" by simp
  have cube: "?r ^ 3 = 2 ^ (5 * x)"
  proof -
    have "?r ^ 3 = ?r powr 3" by (simp add: powr_numeral)
    also have "\<dots> = 2 powr (real x * 5 / 3 * 3)" by (simp only: powr_powr)
    also have "real x * 5 / 3 * 3 = real (5 * x)" by simp
    also have "(2 :: real) powr real (5 * x) = 2 ^ (5 * x)" by (rule powr_realpow) simp
    finally show ?thesis .
  qed
  show "of_int v \<le> ?r"
  proof (rule ccontr)
    assume "\<not> of_int v \<le> ?r"
    hence "?r < of_int v" by simp
    hence "?r ^ 3 < (of_int v) ^ 3" using r0 by (intro power_strict_mono) auto
    hence "real_of_int (2 ^ (5 * x)) < real_of_int (v ^ 3)" by (simp add: cube)
    hence "(2 :: int) ^ (5 * x) < v ^ 3" by (simp only: of_int_less_iff)
    with assms(2) show False by simp
  qed
  show "?r < of_int v + 1"
  proof (rule ccontr)
    assume "\<not> ?r < of_int v + 1"
    hence "real_of_int (v + 1) \<le> ?r" by simp
    hence "(real_of_int (v + 1)) ^ 3 \<le> ?r ^ 3" using assms(1) by (intro power_mono) auto
    hence "real_of_int ((v + 1) ^ 3) \<le> real_of_int (2 ^ (5 * x))" by (simp add: cube)
    hence "(v + 1) ^ 3 \<le> (2 :: int) ^ (5 * x)" by (simp only: of_int_le_iff)
    with assms(3) show False by simp
  qed
qed

lemma speed_val_formula:
  "speed_val = 0 # map (\<lambda>x. \<lfloor>(2 :: real) powr (real x * 5 / 3)\<rfloor>) [0..<20]"
proof -
  have e: "[0..<20] = [0, 1, 2, 3, 4, 5, 6, 7, 8, 9, 10, 11, 12, 13, 14, 15, 16, 17, 18, 19 :: nat]"
    by code_simp
  have f: "\<lfloor>(2 :: real) powr (real (0 :: nat) * 5 / 3)\<rfloor> = 1"
    "\<lfloor>(2 :: real) powr (real (1 :: nat) * 5 / 3)\<rfloor> = 3"
    "\<lfloor>(2 :: real) powr (real (2 :: nat) * 5 / 3)\<rfloor> = 10"
    "\<lfloor>(2 :: real) powr (real (3 :: nat) * 5 / 3)\<rfloor> = 32"
    "\<lfloor>(2 :: real) powr (real (4 :: nat) * 5 / 3)\<rfloor> = 101"
    "\<lfloor>(2 :: real) powr (real (5 :: nat) * 5 / 3)\<rfloor> = 322"
    "\<lfloor>(2 :: real) powr (real (6 :: nat) * 5 / 3)\<rfloor> = 1024"
    "\<lfloor>(2 :: real) powr (real (7 :: nat) * 5 / 3)\<rfloor> = 3250"
    "\<lfloor>(2 :: real) powr (real (8 :: nat) * 5 / 3)\<rfloor> = 10321"
    "\<lfloor>(2 :: real) powr (real (9 :: nat) * 5 / 3)\<rfloor> = 32768"
    "\<lfloor>(2 :: real) powr (real (10 :: nat) * 5 / 3)\<rfloor> = 104031"
    "\<lfloor>(2 :: real) powr (real (11 :: nat) * 5 / 3)\<rfloor> = 330280"
    "\<lfloor>(2 :: real) powr (real (12 :: nat) * 5 / 3)\<rfloor> = 1048576"
    "\<lfloor>(2 :: real) powr (real (13 :: nat) * 5 / 3)\<rfloor> = 3329021"
    "\<lfloor>(2 :: real) powr (real (14 :: nat) * 5 / 3)\<rfloor> = 10568983"
    "\<lfloor>(2 :: real) powr (real (15 :: nat) * 5 / 3)\<rfloor> = 33554432"
    "\<lfloor>(2 :: real) powr (real (16 :: nat) * 5 / 3)\<rfloor> = 106528681"
    "\<lfloor>(2 :: real) powr (real (17 :: nat) * 5 / 3)\<rfloor> = 338207481"
    "\<lfloor>(2 :: real) powr (real (18 :: nat) * 5 / 3)\<rfloor> = 1073741824"
    "\<lfloor>(2 :: real) powr (real (19 :: nat) * 5 / 3)\<rfloor> = 3408917801"
    by (rule floor_powr_cube; simp)+
  show ?thesis unfolding speed_val_def e by (simp only: list.map f)
qed

text \<open>
  C8: rate 0 and a missing rate give the first glyph. For every rate the glyph returned
  is the one at the position of a threshold of \<open>speed_val\<close> (0 followed by the floors of
  \<open>2 powr (x * 5 / 3)\<close> for \<open>x\<close> from 0 to 19) that is at least as close to the rate as
  every other threshold, and any threshold exactly as close has a position that is not
  higher: of two equally close thresholds the higher one is taken.
\<close>

theorem graphic_speed_closest:
  "graphic_speed (Some 0) = speed_gfx ! 0
   \<and> graphic_speed None = graphic_speed (Some 0)
   \<and> graphic_speed (Some v) = speed_gfx ! graphic_index (Some v)
   \<and> graphic_index (Some v) < 21 \<and> length speed_gfx = 21 \<and> length speed_val = 21
   \<and> distinct speed_gfx
   \<and> (\<forall>k < 21. \<bar>v - speed_val ! graphic_index (Some v)\<bar> \<le> \<bar>v - speed_val ! k\<bar>)
   \<and> (\<forall>k < 21. \<bar>v - speed_val ! k\<bar> = \<bar>v - speed_val ! graphic_index (Some v)\<bar>
          \<longrightarrow> k \<le> graphic_index (Some v))
   \<and> speed_val = 0 # map (\<lambda>x. \<lfloor>(2 :: real) powr (real x * 5 / 3)\<rfloor>) [0..<20]"
proof (intro conjI allI impI)
  show "graphic_speed (Some 0) = speed_gfx ! 0"
    by (simp add: graphic_speed_def graphic_index_def speed_val_def)
  show "graphic_speed None = graphic_speed (Some 0)"
    by (simp add: graphic_speed_def graphic_index_def)
  show "graphic_speed (Some v) = speed_gfx ! graphic_index (Some v)"
    by (simp add: graphic_speed_def)
  show "graphic_index (Some v) < 21" using graphic_index_closest [of v] by blast
  show "length speed_gfx = 21" by (rule speed_gfx_length)
  show "length speed_val = 21" by (rule speed_val_length)
  show "distinct speed_gfx" by (rule speed_gfx_distinct)
  show "speed_val = 0 # map (\<lambda>x. \<lfloor>(2 :: real) powr (real x * 5 / 3)\<rfloor>) [0..<20]"
    by (rule speed_val_formula)
next
  fix k :: nat assume k: "k < 21"
  hence "speed_val ! k \<in> set speed_val" by (simp add: speed_val_length)
  with graphic_index_closest [of v]
  show "\<bar>v - speed_val ! graphic_index (Some v)\<bar> \<le> \<bar>v - speed_val ! k\<bar>" by blast
next
  fix k :: nat
  assume k: "k < 21"
    and t: "\<bar>v - speed_val ! k\<bar> = \<bar>v - speed_val ! graphic_index (Some v)\<bar>"
  let ?j = "graphic_index (Some v)"
  from k have "speed_val ! k \<in> set speed_val" by (simp add: speed_val_length)
  with graphic_index_closest [of v] t have le: "speed_val ! k \<le> speed_val ! ?j" by blast
  have j: "?j < length speed_val" using graphic_index_closest [of v] by (simp add: speed_val_length)
  show "k \<le> ?j"
  proof (rule ccontr)
    assume "\<not> k \<le> ?j"
    hence "?j < k" by simp
    from sorted_wrt_nth_less [OF speed_val_sorted this] k
    have "speed_val ! ?j < speed_val ! k" by (simp add: speed_val_length)
    with le show False by simp
  qed
qed

theorem graphic_speed_closest_witness:
  "graphic_index (Some 2) = 2 \<and> speed_val ! 1 = 1 \<and> speed_val ! 2 = 3
   \<and> \<bar>2 - speed_val ! 1\<bar> = \<bar>2 - speed_val ! 2\<bar> \<and> (1 :: nat) \<le> 2
   \<and> graphic_speed (Some 2) = ''..'' @ CHR 0x5C # ''                  ''"
proof -
  have i: "graphic_index (Some 2) = 2" by (simp add: graphic_index_def speed_val_def)
  have a: "speed_val ! 1 = 1" "speed_val ! 2 = 3" by (simp_all add: speed_val_def)
  have k: "(1 :: nat) < 21" by simp
  have t: "\<bar>2 - speed_val ! 1\<bar> = \<bar>2 - speed_val ! graphic_index (Some 2)\<bar>"
    unfolding i a by simp
  have "(1 :: nat) \<le> graphic_index (Some 2)"
    using graphic_speed_closest [of 2] k t by blast
  moreover have "graphic_speed (Some 2) = speed_gfx ! graphic_index (Some 2)"
    using graphic_speed_closest [of 2] by blast
  hence "graphic_speed (Some 2) = ''..'' @ CHR 0x5C # ''                  ''"
    unfolding i by (simp add: speed_gfx_def)
  ultimately show ?thesis using i a by simp
qed


section \<open>The readable rate\<close>

lemma digits_nonempty: "1 \<le> length (digits n)"
  by (subst digits.simps) simp

lemma digits_length_3:
  assumes "100 \<le> n"
  shows "3 \<le> length (digits n)"
proof -
  have a: "length (digits n) = length (digits (n div 10)) + 1"
    using assms by (subst digits.simps) simp
  have "10 \<le> n div 10" using assms by simp
  hence b: "length (digits (n div 10)) = length (digits (n div 10 div 10)) + 1"
    by (subst digits.simps) simp
  from a b digits_nonempty [of "n div 10 div 10"] show ?thesis by simp
qed

lemma digits_length_4:
  assumes "1000 \<le> n"
  shows "4 \<le> length (digits n)"
proof -
  have a: "length (digits n) = length (digits (n div 10)) + 1"
    using assms by (subst digits.simps) simp
  have "100 \<le> n div 10" using assms by simp
  from a digits_length_3 [OF this] show ?thesis by simp
qed

lemma digits_length_5:
  assumes "10000 \<le> n"
  shows "5 \<le> length (digits n)"
proof -
  have a: "length (digits n) = length (digits (n div 10)) + 1"
    using assms by (subst digits.simps) simp
  have "1000 \<le> n div 10" using assms by simp
  from a digits_length_4 [OF this] show ?thesis by simp
qed

lemma rjust_length: "length s \<le> length (rjust w s)"
  by (simp add: rjust_def)

lemma rjust_wide: "w \<le> length s \<Longrightarrow> rjust w s = s"
  by (simp add: rjust_def)

lemma round_half_even_ge_floor: "\<lfloor>r\<rfloor> \<le> round_half_even r"
  by (simp add: round_half_even_def Let_def)

lemma replicate_numeral: "replicate (numeral k) x = x # replicate (pred_numeral k) x"
  by (simp add: numeral_eq_Suc)

lemma fmt_4f_long:
  assumes "100 \<le> x"
  shows "\<not> length (fmt_4f p x) \<le> 5"
proof -
  let ?n = "nat (round_half_even (\<bar>x\<bar> * 10 ^ p))"
  have "rat_of_int (100 * 10 ^ p) \<le> \<bar>x\<bar> * 10 ^ p" using assms by simp
  hence "100 * 10 ^ p \<le> \<lfloor>\<bar>x\<bar> * 10 ^ p\<rfloor>" by (simp only: le_floor_iff)
  also have "\<dots> \<le> round_half_even (\<bar>x\<bar> * 10 ^ p)" by (rule round_half_even_ge_floor)
  finally have "int (100 * 10 ^ p) \<le> round_half_even (\<bar>x\<bar> * 10 ^ p)" by simp
  hence "100 * 10 ^ p \<le> ?n" by linarith
  hence "100 * 10 ^ p div 10 ^ p \<le> ?n div 10 ^ p" by (rule div_le_mono)
  hence "100 \<le> ?n div 10 ^ p" by simp
  hence d: "3 \<le> length (digits (?n div 10 ^ p))" by (rule digits_length_3)
  let ?body = "(if x < 0 then ''-'' else '''') @ digits (?n div 10 ^ p) @ ''.''
                  @ replicate (p - length (digits (?n mod 10 ^ p))) CHR ''0'' @ digits (?n mod 10 ^ p)"
  have "5 \<le> length ?body" using d digits_nonempty [of "?n mod 10 ^ p"] by simp
  also have "\<dots> \<le> length (rjust 4 ?body)" by (rule rjust_length)
  finally have "6 \<le> length (rjust 4 ?body @ '' '')" by simp
  thus ?thesis by (simp add: fmt_4f_def Let_def)
qed

lemma fmt_4f_stage:
  assumes "0 < step" "100 * step \<le> v"
  shows "\<not> length (fmt_4f p (of_int v / of_int step)) \<le> 5"
proof (rule fmt_4f_long)
  have "rat_of_int (100 * step) \<le> of_int v" using assms(2) by (simp only: of_int_le_iff)
  thus "100 \<le> rat_of_int v / rat_of_int step" using assms(1) by (simp add: pos_le_divide_eq)
qed

lemma div_stage:
  assumes "0 < step" "1024 * step \<le> (v :: int)"
  shows "\<not> v div step < 1024"
proof -
  have "1024 * step div step \<le> v div step" using assms by (intro zdiv_mono1) simp_all
  thus ?thesis using assms(1) by simp
qed

lemma readable_speed_beyond:
  assumes "1024 ^ 5 \<le> v"
  shows "readable_speed (Some v) = digits (nat (v div 1024 ^ 4)) @ '' TiB/s''"
proof -
  have v: "1125899906842624 \<le> v" using assms by simp
  have f: "\<not> length (fmt_4f p (of_int v / 1024)) \<le> 5"
    "\<not> length (fmt_4f p (of_int v / 1048576)) \<le> 5"
    "\<not> length (fmt_4f p (of_int v / 1073741824)) \<le> 5"
    "\<not> length (fmt_4f p (of_int v / 1099511627776)) \<le> 5" for p
    using fmt_4f_stage [of 1024 v p] fmt_4f_stage [of 1048576 v p]
      fmt_4f_stage [of 1073741824 v p] fmt_4f_stage [of 1099511627776 v p] v
    by simp_all
  have d: "\<not> v div 1 < 1024" "\<not> v div 1024 < 1024" "\<not> v div 1048576 < 1024"
    "\<not> v div 1073741824 < 1024" "\<not> v div 1099511627776 < 1024"
    using div_stage [of 1 v] div_stage [of 1024 v] div_stage [of 1048576 v]
      div_stage [of 1073741824 v] div_stage [of 1099511627776 v] v
    by simp_all
  have "1000 \<le> nat (v div 1099511627776)" using d(5) by simp
  hence "4 \<le> length (digits (nat (v div 1099511627776)))" by (rule digits_length_4)
  hence r: "rjust 4 (digits (nat (v div 1099511627776))) = digits (nat (v div 1099511627776))"
    by (rule rjust_wide)
  have n: "\<not> v < 0" "\<not> v div 1099511627776 < 0" using v d(5) by simp_all
  show ?thesis
    using f d n by (simp add: readable_speed_def units_def fmt_4d_def r)
qed

text \<open>
  C7: rate 0 is the plain integer \<open>0\<close> in a field of four with the unit B/s, and so is
  every rate below 1024, without decimals; rate 1536 is \<open>1.50 KiB/s\<close>; a missing rate
  and a negative rate are formatted as rate 0; a rate of 1024 TiB/s or more is the
  integer number of TiB followed by TiB/s, which has at least four digits and from
  10000 TiB/s on more than four.
\<close>

theorem readable_speed_spec:
  "readable_speed (Some 0) = ''   0 B/s''
   \<and> (0 \<le> v \<and> v < 1024 \<longrightarrow> readable_speed (Some v) = rjust 4 (digits (nat v)) @ '' B/s'')
   \<and> readable_speed (Some 1536) = ''1.50 KiB/s''
   \<and> readable_speed None = readable_speed (Some 0)
   \<and> (v < 0 \<longrightarrow> readable_speed (Some v) = readable_speed (Some 0))
   \<and> (1024 ^ 5 \<le> v \<longrightarrow> readable_speed (Some v) = digits (nat (v div 1024 ^ 4)) @ '' TiB/s'')
   \<and> (10000 * 1024 ^ 4 \<le> v \<longrightarrow> 4 < length (digits (nat (v div 1024 ^ 4))))
   \<and> readable_speed (Some (10000 * 1024 ^ 4)) = ''10000 TiB/s''"
proof (intro conjI impI)
  show "readable_speed (Some 0) = ''   0 B/s''"
    by (simp add: readable_speed_def units_def fmt_4d_def rjust_def digits.simps replicate_numeral)
  show "readable_speed (Some v) = rjust 4 (digits (nat v)) @ '' B/s''" if "0 \<le> v \<and> v < 1024"
    using that by (simp add: readable_speed_def units_def fmt_4d_def)
  show "readable_speed (Some 1536) = ''1.50 KiB/s''"
    by (simp add: readable_speed_def units_def fmt_4d_def fmt_4f_def rjust_def
        round_half_even_def Let_def digits.simps replicate_numeral)
  show "readable_speed None = readable_speed (Some 0)"
    by (simp add: readable_speed_def)
  show "readable_speed (Some v) = readable_speed (Some 0)" if "v < 0"
    using that by (simp add: readable_speed_def)
  show "readable_speed (Some v) = digits (nat (v div 1024 ^ 4)) @ '' TiB/s''" if "1024 ^ 5 \<le> v"
    using that by (rule readable_speed_beyond)
  show "4 < length (digits (nat (v div 1024 ^ 4)))" if "10000 * 1024 ^ 4 \<le> v"
  proof -
    have "10000 * 1099511627776 div 1099511627776 \<le> v div 1099511627776"
      using that by (intro zdiv_mono1) simp_all
    hence "10000 \<le> nat (v div 1024 ^ 4)" by simp
    from digits_length_5 [OF this] show ?thesis by simp
  qed
  have "readable_speed (Some (10000 * 1024 ^ 4)) =
      digits (nat (10000 * 1024 ^ 4 div 1024 ^ 4)) @ '' TiB/s''"
    by (rule readable_speed_beyond) simp
  thus "readable_speed (Some (10000 * 1024 ^ 4)) = ''10000 TiB/s''"
    by (simp add: digits.simps)
qed

theorem readable_speed_spec_witness:
  "readable_speed (Some (20000 * 1024 ^ 4)) = ''20000 TiB/s''
   \<and> 4 < length ''20000''
   \<and> readable_speed (Some (- 5)) = ''   0 B/s''
   \<and> readable_speed (Some 7) = ''   7 B/s''"
proof -
  have d: "digits (nat (20000 * 1024 ^ 4 div 1024 ^ 4)) = ''20000''"
    by (simp add: digits.simps)
  have a: "(1024 :: int) ^ 5 \<le> 20000 * 1024 ^ 4" by simp
  have "readable_speed (Some (20000 * 1024 ^ 4)) =
      digits (nat (20000 * 1024 ^ 4 div 1024 ^ 4)) @ '' TiB/s''"
    using readable_speed_spec [of "20000 * 1024 ^ 4"] a by blast
  hence b: "readable_speed (Some (20000 * 1024 ^ 4)) = ''20000 TiB/s''"
    unfolding d by simp
  have "(10000 :: int) * 1024 ^ 4 \<le> 20000 * 1024 ^ 4" by simp
  hence "4 < length (digits (nat (20000 * 1024 ^ 4 div 1024 ^ 4)))"
    using readable_speed_spec [of "20000 * 1024 ^ 4"] by blast
  hence c: "4 < length ''20000''" unfolding d .
  have "(- 5 :: int) < 0" by simp
  hence "readable_speed (Some (- 5)) = readable_speed (Some 0)"
    using readable_speed_spec [of "- 5"] by blast
  moreover have "readable_speed (Some 0) = ''   0 B/s''"
    using readable_speed_spec [of 0] by blast
  ultimately have e: "readable_speed (Some (- 5)) = ''   0 B/s''" by simp
  have "(0 :: int) \<le> 7 \<and> (7 :: int) < 1024" by simp
  hence "readable_speed (Some 7) = rjust 4 (digits (nat 7)) @ '' B/s''"
    using readable_speed_spec [of 7] by blast
  hence f: "readable_speed (Some 7) = ''   7 B/s''"
    by (simp add: rjust_def digits.simps replicate_numeral)
  from b c e f show ?thesis by blast
qed

end
